theory Spec2Isabelle
  imports Main
begin

section \<open>The render-context promise cache of use-nunjucks.ts\<close>

text \<open>
  The module keeps one object, \<^verbatim>\<open>getRenderContextPromiseCache\<close>, created by the literal
  \<^verbatim>\<open>{}\<close>. \<^verbatim>\<open>handleRender(obj, contextCacheKey)\<close> runs synchronously up to its
  \<^verbatim>\<open>await\<close>: it tests the key and the object, possibly stores the promise of a new
  \<^verbatim>\<open>fetchRenderContext()\<close> call, schedules a timer and reads the object again. The host
  is single-threaded, so this prefix is one atomic step of the model; timers, promise
  settlement and \<^verbatim>\<open>initializeNunjucksRenderPromiseCache\<close> are the other steps.
\<close>

subsection \<open>Values\<close>

text \<open>
  A promise is known by its identity: the promise returned by the n-th call of
  \<^verbatim>\<open>fetchRenderContext\<close> (counted from 0) is handle n.
\<close>

type_synonym handle = nat

text \<open>
  What a read \<^verbatim>\<open>getRenderContextPromiseCache[i]\<close> can give: \<^verbatim>\<open>undefined\<close>, a stored
  promise, or the member of \<^verbatim>\<open>Object.prototype\<close> named i, which an object literal
  inherits.
\<close>

datatype jsval = Undefined | Promise handle | ProtoProp string

datatype ('c, 'e) outcome = Fulfilled 'c | Rejected 'e

text \<open>The value handed to \<^verbatim>\<open>render\<close> as its context once the \<^verbatim>\<open>await\<close> completes.\<close>

datatype 'c arg = Context 'c | NotPromise jsval

datatype ('c, 'e) awaited = Waiting | Yields "'c arg" | Throws 'e

subsection \<open>State\<close>

text \<open>
  \<open>cache\<close> holds the own properties of the object, \<open>timers\<close> the pending
  \<^verbatim>\<open>setTimeout\<close> callbacks in scheduling order, each with its due time and the
  \<^verbatim>\<open>contextCacheKey\<close> its closure captured, \<open>fetches\<close> the number of
  \<^verbatim>\<open>fetchRenderContext\<close> calls made so far, \<open>settled\<close> the promises that have
  completed, \<open>clock\<close> the time in milliseconds.
\<close>

record ('c, 'e) state =
  cache :: "string \<rightharpoonup> handle"
  timers :: "(nat \<times> string option) list"
  fetches :: nat
  settled :: "handle \<rightharpoonup> ('c, 'e) outcome"
  clock :: nat

text \<open>Line 10 and line 16: the module starts with an empty object and nothing scheduled.\<close>

definition init :: "('c, 'e) state" where
  "init = \<lparr>cache = Map.empty, timers = [], fetches = 0, settled = Map.empty, clock = 0\<rparr>"

subsection \<open>Property access\<close>

text \<open>
  A \<^verbatim>\<open>string | null\<close> used as an index is converted to a property name:
  \<^verbatim>\<open>null\<close> becomes the string \<^verbatim>\<open>"null"\<close>.
\<close>

fun toPropertyKey :: "string option \<Rightarrow> string" where
  "toPropertyKey None = ''null''"
| "toPropertyKey (Some k) = k"

text \<open>\<^verbatim>\<open>!contextCacheKey\<close>: \<^verbatim>\<open>null\<close> and the empty string are the falsy keys.\<close>

fun falsyKey :: "string option \<Rightarrow> bool" where
  "falsyKey None = True"
| "falsyKey (Some k) = (k = [])"

text \<open>The property names every object literal inherits from \<^verbatim>\<open>Object.prototype\<close>.\<close>

definition objectPrototypeKeys :: "string list" where
  "objectPrototypeKeys =
     [''constructor'', ''hasOwnProperty'', ''isPrototypeOf'', ''propertyIsEnumerable'',
      ''toLocaleString'', ''toString'', ''valueOf'', ''__proto__'',
      ''__defineGetter__'', ''__defineSetter__'', ''__lookupGetter__'', ''__lookupSetter__'']"

text \<open>Reading a property: an own property first, then the prototype, else \<^verbatim>\<open>undefined\<close>.\<close>

definition getProp :: "(string \<rightharpoonup> handle) \<Rightarrow> string \<Rightarrow> jsval" where
  "getProp c i =
     (case c i of
        Some h \<Rightarrow> Promise h
      | None \<Rightarrow> if i \<in> set objectPrototypeKeys then ProtoProp i else Undefined)"

text \<open>Promises, functions and objects are truthy; \<^verbatim>\<open>undefined\<close> is not.\<close>

fun truthy :: "jsval \<Rightarrow> bool" where
  "truthy Undefined = False"
| "truthy (Promise h) = True"
| "truthy (ProtoProp n) = True"

subsection \<open>handleRender up to its await (lines 50 to 61)\<close>

definition evictionDelay :: nat where
  "evictionDelay = 5000"

text \<open>Line 51: the condition under which line 54 calls \<^verbatim>\<open>fetchRenderContext\<close>.\<close>

definition mustFetch :: "string option \<Rightarrow> ('c, 'e) state \<Rightarrow> bool" where
  "mustFetch key s =
     (falsyKey key \<or> \<not> truthy (getProp (cache s) (toPropertyKey key)))"

text \<open>
  The result is the value line 61 awaits and the state left behind. Line 54 stores the new
  promise under the converted key; line 59 schedules the deletion on every path.
\<close>

definition handleRender :: "string option \<Rightarrow> ('c, 'e) state \<Rightarrow> jsval \<times> ('c, 'e) state" where
  "handleRender key s =
     (let i = toPropertyKey key;
          s1 = (if mustFetch key s
                then s\<lparr>cache := (cache s)(i \<mapsto> fetches s), fetches := Suc (fetches s)\<rparr>
                else s);
          s2 = s1\<lparr>timers := timers s1 @ [(clock s1 + evictionDelay, key)]\<rparr>
      in (getProp (cache s2) i, s2))"

text \<open>
  Lines 61 and 62, once the awaited value is known: a rejection is rethrown to the caller,
  anything else is passed to \<^verbatim>\<open>render\<close>, which lives in another module and is a
  parameter here.
\<close>

definition await :: "('c, 'e) state \<Rightarrow> jsval \<Rightarrow> ('c, 'e) awaited" where
  "await s v =
     (case v of
        Promise h \<Rightarrow>
          (case settled s h of
             None \<Rightarrow> Waiting
           | Some (Fulfilled c) \<Rightarrow> Yields (Context c)
           | Some (Rejected e) \<Rightarrow> Throws e)
      | _ \<Rightarrow> Yields (NotPromise v))"

definition resume ::
  "('o \<Rightarrow> 'c arg \<Rightarrow> ('r, 'e) outcome) \<Rightarrow> 'o \<Rightarrow> ('c, 'e) awaited \<Rightarrow> ('r, 'e) outcome option" where
  "resume render obj a =
     (case a of
        Waiting \<Rightarrow> None
      | Yields c \<Rightarrow> Some (render obj c)
      | Throws e \<Rightarrow> Some (Rejected e))"

subsection \<open>Timers, reset and settlement\<close>

text \<open>Line 59's callback: \<^verbatim>\<open>delete getRenderContextPromiseCache[contextCacheKey]\<close>.\<close>

definition evict :: "string option \<Rightarrow> (string \<rightharpoonup> handle) \<Rightarrow> (string \<rightharpoonup> handle)" where
  "evict key c = c(toPropertyKey key := None)"

fun evictAll :: "string option list \<Rightarrow> (string \<rightharpoonup> handle) \<Rightarrow> (string \<rightharpoonup> handle)" where
  "evictAll [] c = c"
| "evictAll (key # keys) c = evictAll keys (evict key c)"

definition isDue :: "nat \<Rightarrow> nat \<times> string option \<Rightarrow> bool" where
  "isDue t tm = (fst tm \<le> t)"

text \<open>
  The host runs the callback of a timer no earlier than its due time, and only when the
  thread is free, so a callback can still be queued after its delay has elapsed. Three steps
  cover this. With \<open>elapse\<close> time passes and no callback runs. With \<open>fire\<close> the
  callback at the head of the pending list runs, if it is due; all delays are equal, so a
  run keeps the list in order of due time and the host runs the callbacks in that order.
  With \<open>advance\<close> time passes and every timer due by then runs at once, in scheduling
  order, which is what a host that is never late does.
\<close>

definition elapse :: "nat \<Rightarrow> ('c, 'e) state \<Rightarrow> ('c, 'e) state" where
  "elapse d s = s\<lparr>clock := clock s + d\<rparr>"

definition fire :: "('c, 'e) state \<Rightarrow> ('c, 'e) state" where
  "fire s =
     (case timers s of
        [] \<Rightarrow> s
      | tm # rest \<Rightarrow>
          if isDue (clock s) tm then s\<lparr>cache := evict (snd tm) (cache s), timers := rest\<rparr>
          else s)"

definition advance :: "nat \<Rightarrow> ('c, 'e) state \<Rightarrow> ('c, 'e) state" where
  "advance d s =
     (let t = clock s + d
      in s\<lparr>cache := evictAll (map snd (filter (isDue t) (timers s))) (cache s),
            timers := filter (\<lambda>tm. \<not> isDue t tm) (timers s),
            clock := t\<rparr>)"

text \<open>Lines 12 to 14: a fresh object replaces the old one; pending timers stay scheduled.\<close>

definition initializeNunjucksRenderPromiseCache :: "('c, 'e) state \<Rightarrow> ('c, 'e) state" where
  "initializeNunjucksRenderPromiseCache s = s\<lparr>cache := Map.empty\<rparr>"

text \<open>A promise that exists and is still pending completes, once.\<close>

definition settle :: "handle \<Rightarrow> ('c, 'e) outcome \<Rightarrow> ('c, 'e) state \<Rightarrow> ('c, 'e) state" where
  "settle h oc s =
     (if h < fetches s \<and> settled s h = None then s\<lparr>settled := (settled s)(h \<mapsto> oc)\<rparr> else s)"

subsection \<open>Runs\<close>

datatype ('c, 'e) event =
    Call "string option"
  | Advance nat
  | Elapse nat
  | Fire
  | Settle handle "('c, 'e) outcome"
  | Reset

fun step :: "('c, 'e) event \<Rightarrow> ('c, 'e) state \<Rightarrow> ('c, 'e) state" where
  "step (Call key) s = snd (handleRender key s)"
| "step (Advance d) s = advance d s"
| "step (Elapse d) s = elapse d s"
| "step Fire s = fire s"
| "step (Settle h oc) s = settle h oc s"
| "step Reset s = initializeNunjucksRenderPromiseCache s"

fun exec :: "('c, 'e) event list \<Rightarrow> ('c, 'e) state \<Rightarrow> ('c, 'e) state" where
  "exec [] s = s"
| "exec (e # es) s = exec es (step e s)"

text \<open>
  What each call of a run did: its key, the value it awaits, and whether it called
  \<^verbatim>\<open>fetchRenderContext\<close>.
\<close>

fun calls :: "('c, 'e) event list \<Rightarrow> ('c, 'e) state \<Rightarrow> (string option \<times> jsval \<times> bool) list" where
  "calls [] s = []"
| "calls (Call key # es) s =
     (key, fst (handleRender key s), mustFetch key s) # calls es (step (Call key) s)"
| "calls (e # es) s = calls es (step e s)"

text \<open>
  An event disturbs the entry under property name i when it can remove or replace it: a
  reset, a timer for i running, or a call with a falsy key that is stored under i.
\<close>

fun disturbs :: "string \<Rightarrow> ('c, 'e) event \<Rightarrow> ('c, 'e) state \<Rightarrow> bool" where
  "disturbs i (Call key) s = (falsyKey key \<and> toPropertyKey key = i)"
| "disturbs i (Advance d) s =
     (i \<in> set (map (toPropertyKey \<circ> snd) (filter (isDue (clock s + d)) (timers s))))"
| "disturbs i (Elapse d) s = False"
| "disturbs i Fire s =
     (case timers s of
        [] \<Rightarrow> False
      | tm # rest \<Rightarrow> isDue (clock s) tm \<and> toPropertyKey (snd tm) = i)"
| "disturbs i (Settle h oc) s = False"
| "disturbs i Reset s = True"

fun undisturbed :: "string \<Rightarrow> ('c, 'e) event list \<Rightarrow> ('c, 'e) state \<Rightarrow> bool" where
  "undisturbed i [] s = True"
| "undisturbed i (e # es) s = (\<not> disturbs i e s \<and> undisturbed i es (step e s))"

text \<open>
  What holds of every state a run from \<open>init\<close> reaches: a stored handle was issued
  already and a timer for its property name is pending, and every pending timer is due
  no later than one delay from now.
\<close>

definition coherent :: "('c, 'e) state \<Rightarrow> bool" where
  "coherent s =
     ((\<forall>i h. cache s i = Some h \<longrightarrow>
          h < fetches s \<and> i \<in> set (map (toPropertyKey \<circ> snd) (timers s))) \<and>
      (\<forall>tm \<in> set (timers s). fst tm \<le> clock s + evictionDelay))"



text \<open>Whether a recorded call stored a new promise under the property name i.\<close>

definition storedUnder :: "string \<Rightarrow> string option \<times> jsval \<times> bool \<Rightarrow> bool" where
  "storedUnder i c = (toPropertyKey (fst c) = i \<and> snd (snd c))"

section \<open>Basic facts about the steps\<close>

lemma handleRender_cache:
  "cache (snd (handleRender key s)) =
     (if mustFetch key s then (cache s)(toPropertyKey key \<mapsto> fetches s) else cache s)"
  by (simp add: handleRender_def Let_def)

lemma handleRender_timers:
  "timers (snd (handleRender key s)) = timers s @ [(clock s + evictionDelay, key)]"
  by (simp add: handleRender_def Let_def)

lemma handleRender_fetches:
  "fetches (snd (handleRender key s)) = (if mustFetch key s then Suc (fetches s) else fetches s)"
  by (simp add: handleRender_def Let_def)

lemma handleRender_clock: "clock (snd (handleRender key s)) = clock s"
  by (simp add: handleRender_def Let_def)

lemma handleRender_settled: "settled (snd (handleRender key s)) = settled s"
  by (simp add: handleRender_def Let_def)

lemma handleRender_value:
  "fst (handleRender key s) =
     (if mustFetch key s then Promise (fetches s) else getProp (cache s) (toPropertyKey key))"
  by (simp add: handleRender_def Let_def getProp_def)

lemma evictAll_apply:
  "evictAll keys c i = (if i \<in> toPropertyKey ` set keys then None else c i)"
  by (induction keys arbitrary: c) (auto simp: evict_def)

lemma advance_cache:
  "cache (advance d s) i =
     (if i \<in> set (map (toPropertyKey \<circ> snd) (filter (isDue (clock s + d)) (timers s)))
      then None else cache s i)"
  by (simp add: advance_def Let_def evictAll_apply image_image)

lemma advance_timers:
  "timers (advance d s) = filter (\<lambda>tm. \<not> isDue (clock s + d) tm) (timers s)"
  by (simp add: advance_def Let_def)

lemma advance_clock: "clock (advance d s) = clock s + d"
  by (simp add: advance_def Let_def)

lemma advance_fetches: "fetches (advance d s) = fetches s"
  by (simp add: advance_def Let_def)

lemma advance_settled: "settled (advance d s) = settled s"
  by (simp add: advance_def Let_def)

lemma fire_cache:
  "cache (fire s) i =
     (case timers s of
        [] \<Rightarrow> cache s i
      | tm # rest \<Rightarrow>
          if isDue (clock s) tm \<and> toPropertyKey (snd tm) = i then None else cache s i)"
  by (cases "timers s") (simp_all add: fire_def evict_def)

lemma fire_timers:
  "timers (fire s) =
     (case timers s of
        [] \<Rightarrow> []
      | tm # rest \<Rightarrow> if isDue (clock s) tm then rest else tm # rest)"
  by (cases "timers s") (simp_all add: fire_def)

lemma fire_timers_subset: "set (timers (fire s)) \<subseteq> set (timers s)"
  by (cases "timers s") (auto simp: fire_timers)

lemma fire_clock: "clock (fire s) = clock s"
  by (cases "timers s") (simp_all add: fire_def)

lemma fire_fetches: "fetches (fire s) = fetches s"
  by (cases "timers s") (simp_all add: fire_def)

lemma fire_settled: "settled (fire s) = settled s"
  by (cases "timers s") (simp_all add: fire_def)

lemma fire_stored:
  "cache (fire s) i = Some h \<Longrightarrow> cache s i = Some h"
  by (cases "timers s") (auto simp: fire_cache split: if_splits)

lemma fire_keeps_timer:
  assumes "tm \<in> set (timers s)" and "cache (fire s) (toPropertyKey (snd tm)) = Some h"
  shows "tm \<in> set (timers (fire s))"
  using assms by (cases "timers s") (auto simp: fire_cache fire_timers split: if_splits)


lemma stored_is_hit: "cache s (toPropertyKey key) = Some h \<Longrightarrow> mustFetch key s = falsyKey key"
  by (simp add: mustFetch_def getProp_def)

lemma step_keeps:
  assumes "cache s k = Some h" and "\<not> disturbs k e s"
  shows "cache (step e s) k = Some h"
proof (cases e)
  case (Call key)
  show ?thesis
  proof (cases "toPropertyKey key = k")
    case True
    with assms Call have "\<not> mustFetch key s"
      by (simp add: stored_is_hit)
    with assms Call show ?thesis by (simp add: handleRender_cache)
  next
    case False
    with assms Call show ?thesis by (simp add: handleRender_cache)
  qed
next
  case (Advance d)
  with assms show ?thesis by (simp add: advance_cache)
next
  case (Elapse d)
  with assms show ?thesis by (simp add: elapse_def)
next
  case Fire
  with assms show ?thesis by (cases "timers s") (auto simp: fire_cache)
next
  case (Settle h' oc)
  with assms show ?thesis by (simp add: settle_def)
next
  case Reset
  with assms show ?thesis by simp
qed

lemma undisturbed_keeps:
  "cache s k = Some h \<Longrightarrow> undisturbed k evs s \<Longrightarrow> cache (exec evs s) k = Some h"
  by (induction evs arbitrary: s) (simp_all add: step_keeps)

section \<open>Sharing within a window\<close>

lemma undisturbed_calls:
  "cache s k = Some h \<Longrightarrow> k \<noteq> [] \<Longrightarrow> undisturbed k evs s \<Longrightarrow>
   map snd (filter (\<lambda>c. fst c = Some k) (calls evs s)) =
     replicate (count_list evs (Call (Some k))) (Promise h, False)"
proof (induction evs arbitrary: s)
  case Nil
  then show ?case by simp
next
  case (Cons e es)
  have keep: "cache (step e s) k = Some h"
    using Cons.prems(1,3) by (simp add: step_keeps)
  have rest: "undisturbed k es (step e s)"
    using Cons.prems(3) by simp
  note IH = Cons.IH [OF keep Cons.prems(2) rest]
  show ?case
  proof (cases e)
    case (Call key)
    show ?thesis
    proof (cases "key = Some k")
      case True
      with Cons.prems(1,2) have "\<not> mustFetch key s"
        by (simp add: stored_is_hit)
      with True Cons.prems(1) have "fst (handleRender key s) = Promise h"
        by (simp add: handleRender_value getProp_def)
      with \<open>\<not> mustFetch key s\<close> True Call IH show ?thesis by simp
    next
      case False
      with Call IH show ?thesis by simp
    qed
  next
    case (Advance d)
    with IH show ?thesis by simp
  next
    case (Elapse d)
    with IH show ?thesis by simp
  next
    case Fire
    with IH show ?thesis by simp
  next
    case (Settle h' oc)
    with IH show ?thesis by simp
  next
    case Reset
    with IH show ?thesis by simp
  qed
qed

lemma absent_is_miss:
  "cache s (toPropertyKey key) = None \<Longrightarrow> toPropertyKey key \<notin> set objectPrototypeKeys \<Longrightarrow>
   mustFetch key s"
  by (simp add: mustFetch_def getProp_def)

text \<open>
  Claim C1, as the code has it. Let k be a non-empty key that is not a property name
  inherited from \<open>Object.prototype\<close>, absent from the table, and let a call with key k
  be followed by any events among which no reset happens, no timer for k comes due and, when
  k is \<open>null\<close> spelled as a string, no call with the null key is made. Then the first
  call is the only one of the calls with key k that invokes fetchRenderContext, and every one
  of them awaits the promise that this invocation returned, so that at any time all of
  them have the same result of their await.
\<close>

theorem one_fetch_per_window:
  assumes "k \<noteq> []" and "k \<notin> set objectPrototypeKeys" and "cache s k = None"
    and "undisturbed k evs (step (Call (Some k)) s)"
  shows "map snd (filter (\<lambda>c. fst c = Some k) (calls (Call (Some k) # evs) s)) =
           (Promise (fetches s), True) #
           replicate (count_list evs (Call (Some k))) (Promise (fetches s), False) \<and>
         map (\<lambda>c. await t (fst (snd c)))
             (filter (\<lambda>c. fst c = Some k) (calls (Call (Some k) # evs) s)) =
           replicate (Suc (count_list evs (Call (Some k)))) (await t (Promise (fetches s)))"
proof -
  let ?cs = "filter (\<lambda>c. fst c = Some k) (calls (Call (Some k) # evs) s)"
  have miss: "mustFetch (Some k) s"
    using assms(2,3) by (simp add: absent_is_miss)
  then have stored: "cache (step (Call (Some k)) s) k = Some (fetches s)"
    by (simp add: handleRender_cache)
  from miss have "fst (handleRender (Some k) s) = Promise (fetches s)"
    by (simp add: handleRender_value)
  with miss undisturbed_calls [OF stored assms(1,4)]
  have shape: "map snd ?cs =
      (Promise (fetches s), True) #
      replicate (count_list evs (Call (Some k))) (Promise (fetches s), False)"
    by simp
  have "map (\<lambda>c. await t (fst (snd c))) ?cs = map (\<lambda>p. await t (fst p)) (map snd ?cs)"
    by (simp add: comp_def)
  also have "\<dots> = replicate (Suc (count_list evs (Call (Some k)))) (await t (Promise (fetches s)))"
    unfolding shape by simp
  finally show ?thesis using shape by blast
qed

theorem one_fetch_per_window_witness:
  "''req-1'' \<noteq> [] \<and> ''req-1'' \<notin> set objectPrototypeKeys \<and>
   cache (init :: (unit, unit) state) ''req-1'' = None \<and>
   undisturbed ''req-1''
     [Call (Some ''req-1''), Settle 0 (Fulfilled ()), Call (Some ''other''), Advance 10,
      Call (Some ''req-1'')]
     (step (Call (Some ''req-1'')) (init :: (unit, unit) state)) \<and>
   map snd (filter (\<lambda>c. fst c = Some ''req-1'')
      (calls [Call (Some ''req-1''), Call (Some ''req-1''), Settle 0 (Fulfilled ()),
              Call (Some ''other''), Advance 10, Call (Some ''req-1'')]
         (init :: (unit, unit) state))) =
     [(Promise 0, True), (Promise 0, False), (Promise 0, False)]"
proof -
  let ?evs = "[Call (Some ''req-1''), Settle 0 (Fulfilled ()),
              Call (Some ''other''), Advance 10, Call (Some ''req-1'')] :: (unit, unit) event list"
  have a: "''req-1'' \<noteq> []" by simp
  have b: "''req-1'' \<notin> set objectPrototypeKeys" by (simp add: objectPrototypeKeys_def)
  have c: "cache (init :: (unit, unit) state) ''req-1'' = None" by (simp add: init_def)
  have d: "undisturbed ''req-1'' ?evs (step (Call (Some ''req-1'')) (init :: (unit, unit) state))"
    by (simp add: handleRender_def mustFetch_def getProp_def objectPrototypeKeys_def init_def
        Let_def advance_def isDue_def evictionDelay_def settle_def)
  have e: "fetches (init :: (unit, unit) state) = 0" by (simp add: init_def)
  from one_fetch_per_window [OF a b c d]
  have "map snd (filter (\<lambda>c. fst c = Some ''req-1'') (calls (Call (Some ''req-1'') # ?evs)
             (init :: (unit, unit) state))) =
           (Promise (fetches (init :: (unit, unit) state)), True) #
           replicate (count_list ?evs (Call (Some ''req-1'')))
             (Promise (fetches (init :: (unit, unit) state)), False)"
    by (rule conjunct1)
  then have f: "map snd (filter (\<lambda>c. fst c = Some ''req-1'') (calls (Call (Some ''req-1'') # ?evs)
             (init :: (unit, unit) state))) =
           [(Promise 0, True), (Promise 0, False), (Promise 0, False)]"
    unfolding e by simp
  from a b c d f show ?thesis by blast
qed

text \<open>
  With the empty string as key, two calls in a row each invoke fetchRenderContext and await
  different promises.
\<close>

theorem one_fetch_per_window_counterexample:
  "map snd (calls [Call (Some ''''), Call (Some '''')] (init :: (unit, unit) state)) =
     [(Promise 0, True), (Promise 1, True)]"
  by (simp add: handleRender_def mustFetch_def init_def Let_def getProp_def)

section \<open>Parts of the state that only grow\<close>

lemma step_settled_stable: "settled s h = Some oc \<Longrightarrow> settled (step e s) h = Some oc"
  by (cases e)
     (auto simp: handleRender_settled advance_settled fire_settled elapse_def settle_def
        initializeNunjucksRenderPromiseCache_def)

lemma settled_stable: "settled s h = Some oc \<Longrightarrow> settled (exec evs s) h = Some oc"
  by (induction evs arbitrary: s) (simp_all add: step_settled_stable)

lemma step_fetches_mono: "fetches s \<le> fetches (step e s)"
  by (cases e)
     (simp_all add: handleRender_fetches advance_fetches fire_fetches elapse_def settle_def
        initializeNunjucksRenderPromiseCache_def)

lemma fetches_mono: "fetches s \<le> fetches (exec evs s)"
proof (induction evs arbitrary: s)
  case Nil
  show ?case by simp
next
  case (Cons e es)
  have "fetches s \<le> fetches (step e s)" by (rule step_fetches_mono)
  also have "\<dots> \<le> fetches (exec es (step e s))" by (rule Cons.IH)
  finally show ?case by simp
qed

section \<open>Failure of the cached computation\<close>

text \<open>
  Claim C3, as the code has it. Let the promise h be stored under a non-empty key k, and let
  any events follow among which nothing disturbs k (no reset, no timer for k coming due and,
  when k is \<open>null\<close> spelled as a string, no call with the null key), at the end of
  which h has been rejected with e. Then h is still stored under k, every call with key k made
  meanwhile awaited h and did not invoke fetchRenderContext, and whoever awaits h, then or
  at any later time, has e thrown at line 61 and so rejects with e.
\<close>

theorem failed_handle_stays_cached:
  assumes "k \<noteq> []" and "cache s k = Some h" and "undisturbed k evs s"
    and "settled (exec evs s) h = Some (Rejected e)"
  shows "cache (exec evs s) k = Some h \<and>
         map snd (filter (\<lambda>c. fst c = Some k) (calls evs s)) =
           replicate (count_list evs (Call (Some k))) (Promise h, False) \<and>
         (\<forall>later. resume render obj (await (exec later (exec evs s)) (Promise h)) =
            Some (Rejected e))"
proof (intro conjI allI)
  show "cache (exec evs s) k = Some h"
    using assms(2,3) by (rule undisturbed_keeps)
  show "map snd (filter (\<lambda>c. fst c = Some k) (calls evs s)) =
          replicate (count_list evs (Call (Some k))) (Promise h, False)"
    using assms(2,1,3) by (rule undisturbed_calls)
next
  fix later
  have "settled (exec later (exec evs s)) h = Some (Rejected e)"
    using assms(4) by (rule settled_stable)
  then show "resume render obj (await (exec later (exec evs s)) (Promise h)) = Some (Rejected e)"
    by (simp add: await_def resume_def)
qed

theorem failed_handle_stays_cached_witness:
  "map snd (filter (\<lambda>c. fst c = Some ''req-1'')
     (calls [Call (Some ''req-1''), Settle 0 (Rejected ''missing parent''), Advance 4999,
             Call (Some ''req-1'')]
        (step (Call (Some ''req-1'')) (init :: (unit, string) state)))) =
     [(Promise 0, False), (Promise 0, False)] \<and>
   cache (exec [Call (Some ''req-1''), Settle 0 (Rejected ''missing parent''), Advance 4999,
                Call (Some ''req-1'')]
            (step (Call (Some ''req-1'')) (init :: (unit, string) state))) ''req-1'' = Some 0 \<and>
   resume (\<lambda>obj ctx. Fulfilled obj) ''{{ x }}''
     (await (exec [Call (Some ''req-1''), Settle 0 (Rejected ''missing parent''), Advance 4999,
                   Call (Some ''req-1'')]
               (step (Call (Some ''req-1'')) (init :: (unit, string) state))) (Promise 0)) =
     Some (Rejected ''missing parent'')"
proof -
  let ?s = "step (Call (Some ''req-1'')) (init :: (unit, string) state)"
  let ?evs = "[Call (Some ''req-1''), Settle 0 (Rejected ''missing parent''), Advance 4999,
               Call (Some ''req-1'')] :: (unit, string) event list"
  have a: "''req-1'' \<noteq> []" by simp
  have b: "cache ?s ''req-1'' = Some 0"
    by (simp add: handleRender_def mustFetch_def getProp_def objectPrototypeKeys_def init_def
        Let_def)
  have c: "undisturbed ''req-1'' ?evs ?s"
    by (simp add: handleRender_def mustFetch_def getProp_def objectPrototypeKeys_def init_def
        Let_def advance_def isDue_def evictionDelay_def settle_def)
  have d: "settled (exec ?evs ?s) 0 = Some (Rejected ''missing parent'')"
    by (simp add: handleRender_def mustFetch_def getProp_def objectPrototypeKeys_def init_def
        Let_def advance_def isDue_def evictionDelay_def settle_def)
  have e: "exec [] (exec ?evs ?s) = exec ?evs ?s" by simp
  from failed_handle_stays_cached [OF a b c d, of "\<lambda>obj ctx. Fulfilled obj" "''{{ x }}''"]
  have f: "cache (exec ?evs ?s) ''req-1'' = Some 0"
    and g: "map snd (filter (\<lambda>c. fst c = Some ''req-1'') (calls ?evs ?s)) =
              replicate (count_list ?evs (Call (Some ''req-1''))) (Promise 0, False)"
    and h: "\<forall>later. resume (\<lambda>obj ctx. Fulfilled obj) ''{{ x }}''
              (await (exec later (exec ?evs ?s)) (Promise 0)) = Some (Rejected ''missing parent'')"
    by blast+
  from h have i: "resume (\<lambda>obj ctx. Fulfilled obj) ''{{ x }}''
              (await (exec [] (exec ?evs ?s)) (Promise 0)) = Some (Rejected ''missing parent'')"
    by (rule spec)
  from g have j: "map snd (filter (\<lambda>c. fst c = Some ''req-1'') (calls ?evs ?s)) =
      [(Promise 0, False), (Promise 0, False)]"
    by simp
  from f i j show ?thesis unfolding e by blast
qed

text \<open>
  With the empty string as key, the call made after the rejection invokes fetchRenderContext
  again and replaces the rejected promise in the table, though no timer has run.
\<close>

theorem failed_handle_stays_cached_counterexample:
  "calls [Call (Some ''''), Settle 0 (Rejected ''missing parent''), Call (Some '''')]
     (init :: (unit, string) state) =
     [(Some '''', Promise 0, True), (Some '''', Promise 1, True)] \<and>
   settled (exec [Call (Some ''''), Settle 0 (Rejected ''missing parent''), Call (Some '''')]
     (init :: (unit, string) state)) 0 = Some (Rejected ''missing parent'') \<and>
   cache (exec [Call (Some ''''), Settle 0 (Rejected ''missing parent'')]
     (init :: (unit, string) state)) '''' = Some 0 \<and>
   cache (exec [Call (Some ''''), Settle 0 (Rejected ''missing parent''), Call (Some '''')]
     (init :: (unit, string) state)) '''' = Some 1 \<and>
   timers (exec [Call (Some ''''), Settle 0 (Rejected ''missing parent''), Call (Some '''')]
     (init :: (unit, string) state)) = [(5000, Some ''''), (5000, Some '''')]"
  by (simp add: handleRender_def mustFetch_def getProp_def init_def Let_def settle_def
      evictionDelay_def)

section \<open>The null key and the string null\<close>

text \<open>
  Claim C7. A call with the null key stores its new promise under the property name
  \<open>null\<close>, whatever was stored there. While nothing disturbs that name (no reset, no
  timer for it coming due, no further call with the null key), a call with the string key
  \<open>null\<close> does not invoke fetchRenderContext and awaits that same promise. A further call
  with the null key replaces the stored promise by a newer one.
\<close>

theorem null_key_shares_with_null_string:
  assumes "undisturbed ''null'' evs (step (Call None) s)"
  shows "cache (step (Call None) s) ''null'' = Some (fetches s) \<and>
         fst (handleRender None s) = Promise (fetches s) \<and>
         \<not> mustFetch (Some ''null'') (exec evs (step (Call None) s)) \<and>
         fst (handleRender (Some ''null'') (exec evs (step (Call None) s))) =
           Promise (fetches s) \<and>
         cache (exec evs (step (Call None) s)) ''null'' = Some (fetches s) \<and>
         cache (step (Call None) (exec evs (step (Call None) s))) ''null'' =
           Some (fetches (exec evs (step (Call None) s))) \<and>
         fetches s < fetches (exec evs (step (Call None) s))"
proof -
  let ?s1 = "step (Call None) s"
  let ?s2 = "exec evs ?s1"
  have miss: "mustFetch None s" for s :: "('a, 'b) state"
    by (simp add: mustFetch_def)
  have stored: "cache ?s1 ''null'' = Some (fetches s)"
    by (simp add: handleRender_cache miss)
  have val: "fst (handleRender None s) = Promise (fetches s)"
    by (simp add: handleRender_value miss)
  have kept: "cache ?s2 ''null'' = Some (fetches s)"
    using stored assms by (rule undisturbed_keeps)
  then have hit: "\<not> mustFetch (Some ''null'') ?s2"
    by (simp add: mustFetch_def getProp_def)
  with kept have same: "fst (handleRender (Some ''null'') ?s2) = Promise (fetches s)"
    by (simp add: handleRender_value getProp_def)
  have over: "cache (step (Call None) ?s2) ''null'' = Some (fetches ?s2)"
    by (simp add: handleRender_cache miss)
  have "fetches ?s1 = Suc (fetches s)"
    by (simp add: handleRender_fetches miss)
  moreover have "fetches ?s1 \<le> fetches ?s2" by (rule fetches_mono)
  ultimately have newer: "fetches s < fetches ?s2" by simp
  from stored val hit same kept over newer show ?thesis by blast
qed

theorem null_key_shares_with_null_string_witness:
  "undisturbed ''null'' [Call (Some ''req-1''), Advance 4999]
     (step (Call None) (init :: (unit, unit) state)) \<and>
   cache (step (Call None) (init :: (unit, unit) state)) ''null'' = Some 0 \<and>
   fst (handleRender (Some ''null'')
     (exec [Call (Some ''req-1''), Advance 4999] (step (Call None) (init :: (unit, unit) state)))) =
     Promise 0 \<and>
   cache (step (Call None)
     (exec [Call (Some ''req-1''), Advance 4999] (step (Call None) (init :: (unit, unit) state))))
     ''null'' = Some 2"
proof -
  let ?s1 = "step (Call None) (init :: (unit, unit) state)"
  let ?evs = "[Call (Some ''req-1''), Advance 4999] :: (unit, unit) event list"
  have a: "undisturbed ''null'' ?evs ?s1"
    by (simp add: handleRender_def mustFetch_def getProp_def objectPrototypeKeys_def init_def
        Let_def advance_def isDue_def evictionDelay_def)
  have b: "fetches (init :: (unit, unit) state) = 0" by (simp add: init_def)
  have c: "fetches (exec ?evs ?s1) = 2"
    by (simp add: handleRender_def mustFetch_def getProp_def objectPrototypeKeys_def init_def
        Let_def advance_def isDue_def evictionDelay_def)
  from null_key_shares_with_null_string [OF a] a show ?thesis
    unfolding b c by blast
qed

section \<open>States reached from the initial one\<close>

lemma coherent_init: "coherent init"
  by (simp add: coherent_def init_def)

lemma coherent_call:
  assumes "coherent s"
  shows "coherent (snd (handleRender key s))"
  unfolding coherent_def
proof (intro conjI allI impI ballI)
  fix i h
  assume st: "cache (snd (handleRender key s)) i = Some h"
  show "h < fetches (snd (handleRender key s))"
  proof (cases "mustFetch key s \<and> i = toPropertyKey key")
    case True
    with st show ?thesis by (simp add: handleRender_cache handleRender_fetches)
  next
    case False
    with st have "cache s i = Some h"
      by (auto simp: handleRender_cache split: if_splits)
    with assms have "h < fetches s" by (simp add: coherent_def)
    then show ?thesis by (simp add: handleRender_fetches)
  qed
  show "i \<in> set (map (toPropertyKey \<circ> snd) (timers (snd (handleRender key s))))"
  proof (cases "i = toPropertyKey key")
    case True
    then show ?thesis by (simp add: handleRender_timers)
  next
    case False
    with st have "cache s i = Some h"
      by (auto simp: handleRender_cache split: if_splits)
    with assms have "i \<in> set (map (toPropertyKey \<circ> snd) (timers s))"
      by (simp add: coherent_def)
    then show ?thesis by (simp add: handleRender_timers)
  qed
next
  fix tm
  assume "tm \<in> set (timers (snd (handleRender key s)))"
  then consider "tm \<in> set (timers s)" | "tm = (clock s + evictionDelay, key)"
    by (auto simp: handleRender_timers)
  then show "fst tm \<le> clock (snd (handleRender key s)) + evictionDelay"
    using assms by cases (auto simp: coherent_def handleRender_clock)
qed

lemma coherent_advance:
  assumes "coherent s"
  shows "coherent (advance d s)"
  unfolding coherent_def
proof (intro conjI allI impI ballI)
  fix i h
  assume st: "cache (advance d s) i = Some h"
  then have nd: "i \<notin> set (map (toPropertyKey \<circ> snd) (filter (isDue (clock s + d)) (timers s)))"
    and old: "cache s i = Some h"
    by (auto simp: advance_cache split: if_splits)
  from old assms show "h < fetches (advance d s)"
    by (simp add: coherent_def advance_fetches)
  from old assms have "i \<in> set (map (toPropertyKey \<circ> snd) (timers s))"
    by (simp add: coherent_def)
  then obtain tm where tm: "tm \<in> set (timers s)" "toPropertyKey (snd tm) = i"
    by auto
  with nd have "\<not> isDue (clock s + d) tm" by auto
  with tm show "i \<in> set (map (toPropertyKey \<circ> snd) (timers (advance d s)))"
    by (auto simp: advance_timers)
next
  fix tm
  assume "tm \<in> set (timers (advance d s))"
  then have "tm \<in> set (timers s)" by (simp add: advance_timers)
  with assms have "fst tm \<le> clock s + evictionDelay" by (simp add: coherent_def)
  then show "fst tm \<le> clock (advance d s) + evictionDelay"
    by (simp add: advance_clock)
qed

lemma coherent_elapse:
  assumes "coherent s"
  shows "coherent (elapse d s)"
  using assms by (fastforce simp: coherent_def elapse_def)

lemma coherent_fire:
  assumes "coherent s"
  shows "coherent (fire s)"
  unfolding coherent_def
proof (intro conjI allI impI ballI)
  fix i h
  assume st: "cache (fire s) i = Some h"
  then have old: "cache s i = Some h" by (rule fire_stored)
  with assms show "h < fetches (fire s)"
    by (simp add: coherent_def fire_fetches)
  from old assms have "i \<in> set (map (toPropertyKey \<circ> snd) (timers s))"
    by (simp add: coherent_def)
  then obtain tm where tm: "tm \<in> set (timers s)" "toPropertyKey (snd tm) = i"
    by auto
  with st have "tm \<in> set (timers (fire s))"
    by (simp add: fire_keeps_timer)
  with tm show "i \<in> set (map (toPropertyKey \<circ> snd) (timers (fire s)))"
    by force
next
  fix tm
  assume "tm \<in> set (timers (fire s))"
  with fire_timers_subset have "tm \<in> set (timers s)" by blast
  with assms show "fst tm \<le> clock (fire s) + evictionDelay"
    by (simp add: coherent_def fire_clock)
qed

lemma coherent_step: "coherent s \<Longrightarrow> coherent (step e s)"
proof (cases e)
  case (Call key)
  assume "coherent s"
  with Call show ?thesis by (simp add: coherent_call)
next
  case (Advance d)
  assume "coherent s"
  with Advance show ?thesis by (simp add: coherent_advance)
next
  case (Elapse d)
  assume "coherent s"
  with Elapse show ?thesis by (simp add: coherent_elapse)
next
  case Fire
  assume "coherent s"
  with Fire show ?thesis by (simp add: coherent_fire)
next
  case (Settle h oc)
  assume "coherent s"
  with Settle show ?thesis by (simp add: coherent_def settle_def)
next
  case Reset
  assume "coherent s"
  with Reset show ?thesis by (simp add: coherent_def initializeNunjucksRenderPromiseCache_def)
qed

lemma coherent_exec: "coherent s \<Longrightarrow> coherent (exec evs s)"
  by (induction evs arbitrary: s) (simp_all add: coherent_step)

lemma coherent_reached: "coherent (exec evs init)"
  by (simp add: coherent_exec coherent_init)

lemma next_handle_unread:
  assumes "coherent s"
  shows "getProp (cache s) i \<noteq> Promise (fetches s)"
proof (cases "cache s i")
  case None
  then show ?thesis by (simp add: getProp_def)
next
  case (Some h)
  with assms have "h < fetches s" by (simp add: coherent_def)
  with Some show ?thesis by (simp add: getProp_def)
qed

section \<open>Calls with a falsy key\<close>

lemma falsy_is_miss: "falsyKey key \<Longrightarrow> mustFetch key s"
  by (simp add: mustFetch_def)

lemma falsy_calls_issue_new:
  "c \<in> set (calls evs s) \<Longrightarrow> falsyKey (fst c) \<Longrightarrow>
   \<exists>h. snd c = (Promise h, True) \<and> fetches s \<le> h"
proof (induction evs arbitrary: s)
  case Nil
  then show ?case by simp
next
  case (Cons e es)
  have later: "c \<in> set (calls es (step e s)) \<Longrightarrow> ?case"
  proof -
    assume "c \<in> set (calls es (step e s))"
    with Cons.IH Cons.prems(2) obtain h
      where h: "snd c = (Promise h, True)" "fetches (step e s) \<le> h"
      by blast
    have "fetches s \<le> fetches (step e s)" by (rule step_fetches_mono)
    with h show ?case by auto
  qed
  show ?case
  proof (cases e)
    case (Call key)
    show ?thesis
    proof (cases "c = (key, fst (handleRender key s), mustFetch key s)")
      case True
      with Cons.prems(2) have "mustFetch key s" by (simp add: falsy_is_miss)
      with True show ?thesis by (simp add: handleRender_value)
    next
      case False
      with Cons.prems(1) Call have "c \<in> set (calls es (step e s))" by simp
      then show ?thesis by (rule later)
    qed
  next
    case (Advance d)
    with Cons.prems(1) have "c \<in> set (calls es (step e s))" by simp
    then show ?thesis by (rule later)
  next
    case (Elapse d)
    with Cons.prems(1) have "c \<in> set (calls es (step e s))" by simp
    then show ?thesis by (rule later)
  next
    case Fire
    with Cons.prems(1) have "c \<in> set (calls es (step e s))" by simp
    then show ?thesis by (rule later)
  next
    case (Settle h oc)
    with Cons.prems(1) have "c \<in> set (calls es (step e s))" by simp
    then show ?thesis by (rule later)
  next
    case Reset
    with Cons.prems(1) have "c \<in> set (calls es (step e s))" by simp
    then show ?thesis by (rule later)
  qed
qed

lemma falsy_handles_distinct:
  "distinct (map (fst \<circ> snd) (filter (\<lambda>c. falsyKey (fst c)) (calls evs s)))"
proof (induction evs arbitrary: s)
  case Nil
  show ?case by simp
next
  case (Cons e es)
  show ?case
  proof (cases e)
    case (Call key)
    show ?thesis
    proof (cases "falsyKey key")
      case True
      then have m: "mustFetch key s" by (rule falsy_is_miss)
      have "Promise (fetches s) \<notin>
              (fst \<circ> snd) ` {c \<in> set (calls es (step e s)). falsyKey (fst c)}"
      proof
        assume "Promise (fetches s) \<in>
                  (fst \<circ> snd) ` {c \<in> set (calls es (step e s)). falsyKey (fst c)}"
        then obtain c where c: "c \<in> set (calls es (step e s))" "falsyKey (fst c)"
          "fst (snd c) = Promise (fetches s)" by auto
        from falsy_calls_issue_new [OF c(1,2)] obtain h
          where h: "snd c = (Promise h, True)" "fetches (step e s) \<le> h" by blast
        from Call m have "fetches (step e s) = Suc (fetches s)"
          by (simp add: handleRender_fetches)
        with h c(3) show False by simp
      qed
      with True m Call Cons.IH [of "step e s"] show ?thesis
        by (simp add: handleRender_value)
    next
      case False
      with Call Cons.IH [of "step e s"] show ?thesis by simp
    qed
  next
    case (Advance d)
    with Cons.IH [of "step e s"] show ?thesis by simp
  next
    case (Elapse d)
    with Cons.IH [of "step e s"] show ?thesis by simp
  next
    case Fire
    with Cons.IH [of "step e s"] show ?thesis by simp
  next
    case (Settle h oc)
    with Cons.IH [of "step e s"] show ?thesis by simp
  next
    case Reset
    with Cons.IH [of "step e s"] show ?thesis by simp
  qed
qed

lemma keyed_handles_distinct:
  assumes "falsyKey key"
  shows "distinct (map (fst \<circ> snd) (filter (\<lambda>c. fst c = key) (calls evs s)))"
proof -
  have "filter (\<lambda>c. fst c = key) (calls evs s) =
        filter (\<lambda>c. fst c = key) (filter (\<lambda>c. falsyKey (fst c)) (calls evs s))"
    using assms by (auto intro: filter_cong)
  moreover have "distinct (map (fst \<circ> snd)
      (filter (\<lambda>c. fst c = key) (filter (\<lambda>c. falsyKey (fst c)) (calls evs s))))"
    using falsy_handles_distinct by (rule distinct_map_filter)
  ultimately show ?thesis by simp
qed

text \<open>
  Claim C2, as the code has it. A call with the null key invokes fetchRenderContext whatever
  the table holds and awaits the promise just made, and no two calls with the null key in a
  run await the same promise. It does write to the table: the promise is stored under the
  property name \<open>null\<close>, and a timer for it is scheduled.
\<close>

theorem null_key_always_fetches:
  "mustFetch None s \<and>
   handleRender None s =
     (Promise (fetches s),
      s\<lparr>cache := (cache s)(''null'' \<mapsto> fetches s), fetches := Suc (fetches s),
         timers := timers s @ [(clock s + evictionDelay, None)]\<rparr>) \<and>
   distinct (map (fst \<circ> snd) (filter (\<lambda>c. fst c = None) (calls evs s)))"
proof (intro conjI)
  show m: "mustFetch None s" by (simp add: falsy_is_miss)
  then show "handleRender None s =
     (Promise (fetches s),
      s\<lparr>cache := (cache s)(''null'' \<mapsto> fetches s), fetches := Suc (fetches s),
         timers := timers s @ [(clock s + evictionDelay, None)]\<rparr>)"
    by (simp add: handleRender_def Let_def getProp_def)
  show "distinct (map (fst \<circ> snd) (filter (\<lambda>c. fst c = None) (calls evs s)))"
    by (rule keyed_handles_distinct) simp
qed

theorem null_key_always_fetches_witness:
  "handleRender None (snd (handleRender (Some ''null'') (init :: (unit, unit) state))) =
     (Promise 1,
      \<lparr>cache = [''null'' \<mapsto> 1], timers = [(5000, Some ''null''), (5000, None)], fetches = 2,
       settled = Map.empty, clock = 0\<rparr>) \<and>
   map (fst \<circ> snd) (filter (\<lambda>c. fst c = None)
     (calls [Call None, Call (Some ''null''), Call None] (init :: (unit, unit) state))) =
     [Promise 0, Promise 1]"
proof -
  let ?s = "snd (handleRender (Some ''null'') (init :: (unit, unit) state))"
  have s: "?s = \<lparr>cache = [''null'' \<mapsto> 0], timers = [(5000, Some ''null'')], fetches = 1,
       settled = Map.empty, clock = 0\<rparr>"
    by (simp add: handleRender_def mustFetch_def getProp_def objectPrototypeKeys_def init_def
        Let_def evictionDelay_def)
  have a: "handleRender None ?s =
     (Promise 1,
      \<lparr>cache = [''null'' \<mapsto> 1], timers = [(5000, Some ''null''), (5000, None)], fetches = 2,
       settled = Map.empty, clock = 0\<rparr>)"
    using null_key_always_fetches [of ?s "[]"] unfolding s
    by (simp add: evictionDelay_def)
  have b: "map (fst \<circ> snd) (filter (\<lambda>c. fst c = None)
     (calls [Call None, Call (Some ''null''), Call None] (init :: (unit, unit) state))) =
     [Promise 0, Promise 1]"
    by (simp add: handleRender_def mustFetch_def getProp_def objectPrototypeKeys_def init_def
        Let_def evictionDelay_def)
  from a b show ?thesis by blast
qed

text \<open>
  The first call the module ever sees, with the null key, leaves the table with the own
  property \<open>null\<close>.
\<close>

theorem null_key_always_fetches_counterexample:
  "cache (init :: (unit, unit) state) ''null'' = None \<and>
   cache (snd (handleRender None (init :: (unit, unit) state))) ''null'' = Some 0"
  by (simp add: handleRender_def mustFetch_def init_def Let_def)

text \<open>
  Claim C10. The empty string is falsy, as the null key is, so a call with the empty string
  as key invokes fetchRenderContext whatever the table holds, also when a promise is stored
  under the empty name. It awaits the promise just made, which no read of the table before
  the call could give, and no two calls with the empty key in a run await the same promise.
\<close>

theorem empty_key_always_fetches:
  "falsyKey (Some '''') = falsyKey None \<and>
   mustFetch (Some '''') s \<and>
   fst (handleRender (Some '''') s) = Promise (fetches s) \<and>
   fetches (snd (handleRender (Some '''') s)) = Suc (fetches s) \<and>
   distinct (map (fst \<circ> snd) (filter (\<lambda>c. fst c = Some '''') (calls evs s))) \<and>
   getProp (cache (exec pre init)) i \<noteq> fst (handleRender (Some '''') (exec pre init))"
proof (intro conjI)
  show "falsyKey (Some '''') = falsyKey None" by simp
  show "mustFetch (Some '''') s"
    by (simp add: falsy_is_miss)
  show "fst (handleRender (Some '''') s) = Promise (fetches s)"
    by (simp add: handleRender_value falsy_is_miss)
  show "fetches (snd (handleRender (Some '''') s)) = Suc (fetches s)"
    by (simp add: handleRender_fetches falsy_is_miss)
  show "distinct (map (fst \<circ> snd) (filter (\<lambda>c. fst c = Some '''') (calls evs s)))"
    by (rule keyed_handles_distinct) simp
  have "getProp (cache (exec pre init)) i \<noteq> Promise (fetches (exec pre init))"
    using coherent_reached by (rule next_handle_unread)
  then show "getProp (cache (exec pre init)) i \<noteq> fst (handleRender (Some '''') (exec pre init))"
    by (simp add: handleRender_value falsy_is_miss)
qed

theorem empty_key_always_fetches_witness:
  "cache (exec [Call (Some '''')] (init :: (unit, unit) state)) '''' = Some 0 \<and>
   mustFetch (Some '''') (exec [Call (Some '''')] (init :: (unit, unit) state)) \<and>
   fst (handleRender (Some '''') (exec [Call (Some '''')] (init :: (unit, unit) state))) =
     Promise 1 \<and>
   getProp (cache (exec [Call (Some '''')] (init :: (unit, unit) state))) '''' \<noteq> Promise 1"
proof -
  let ?s = "exec [Call (Some '''')] (init :: (unit, unit) state)"
  have a: "cache ?s '''' = Some 0"
    by (simp add: handleRender_def mustFetch_def init_def Let_def)
  have b: "fetches ?s = 1"
    by (simp add: handleRender_def mustFetch_def init_def Let_def)
  from empty_key_always_fetches [of ?s "[]" "[Call (Some '''')]" "''''"]
  have c: "mustFetch (Some '''') ?s"
    and d: "fst (handleRender (Some '''') ?s) = Promise (fetches ?s)"
    and e: "getProp (cache ?s) '''' \<noteq> fst (handleRender (Some '''') ?s)"
    by blast+
  from d b have f: "fst (handleRender (Some '''') ?s) = Promise 1" by simp
  from e f have g: "getProp (cache ?s) '''' \<noteq> Promise 1" by simp
  from a c f g show ?thesis by blast
qed

section \<open>Timers\<close>

text \<open>
  Claim C4, as the code has it. Line 59 is outside the conditional of line 51: every call,
  whether it finds the key, misses it or has a falsy key, schedules exactly one timer, due
  5000 ms after the call, and leaves the timers scheduled before as they are.
\<close>

theorem every_call_schedules_one_timer:
  "timers (snd (handleRender key s)) = timers s @ [(clock s + 5000, key)] \<and>
   (mustFetch key s \<or> cache (snd (handleRender key s)) = cache s)"
  by (simp add: handleRender_timers handleRender_cache evictionDelay_def)

theorem every_call_schedules_one_timer_witness:
  "\<not> mustFetch (Some ''req-1'') (exec [Call (Some ''req-1''), Advance 10] (init :: (unit, unit) state)) \<and>
   timers (exec [Call (Some ''req-1''), Advance 10] (init :: (unit, unit) state)) =
     [(5000, Some ''req-1'')] \<and>
   timers (snd (handleRender (Some ''req-1'')
     (exec [Call (Some ''req-1''), Advance 10] (init :: (unit, unit) state)))) =
     [(5000, Some ''req-1''), (5010, Some ''req-1'')]"
proof -
  let ?s = "exec [Call (Some ''req-1''), Advance 10] (init :: (unit, unit) state)"
  have a: "\<not> mustFetch (Some ''req-1'') ?s"
    by (simp add: handleRender_def mustFetch_def getProp_def objectPrototypeKeys_def init_def
        Let_def advance_def isDue_def evictionDelay_def)
  have b: "timers ?s = [(5000, Some ''req-1'')]"
    by (simp add: handleRender_def mustFetch_def getProp_def objectPrototypeKeys_def init_def
        Let_def advance_def isDue_def evictionDelay_def)
  have c: "clock ?s = 10"
    by (simp add: handleRender_def mustFetch_def getProp_def objectPrototypeKeys_def init_def
        Let_def advance_def isDue_def evictionDelay_def)
  from every_call_schedules_one_timer [of "Some ''req-1''" ?s] a b show ?thesis
    unfolding c by simp
qed

text \<open>
  A second call with the same key finds the promise of the first and still schedules a
  timer of its own.
\<close>

theorem every_call_schedules_one_timer_counterexample:
  "calls [Call (Some ''req-1''), Call (Some ''req-1'')] (init :: (unit, unit) state) =
     [(Some ''req-1'', Promise 0, True), (Some ''req-1'', Promise 0, False)] \<and>
   timers (exec [Call (Some ''req-1'')] (init :: (unit, unit) state)) =
     [(5000, Some ''req-1'')] \<and>
   timers (exec [Call (Some ''req-1''), Call (Some ''req-1'')] (init :: (unit, unit) state)) =
     [(5000, Some ''req-1''), (5000, Some ''req-1'')]"
  by (simp add: handleRender_def mustFetch_def getProp_def objectPrototypeKeys_def init_def
      Let_def evictionDelay_def)

section \<open>Pending timers and the clock\<close>








section \<open>Reset\<close>

lemma step_unstored:
  assumes "\<forall>h. cache s i = Some h \<longrightarrow> P h"
    and "\<forall>key. e = Call key \<longrightarrow> \<not> (toPropertyKey key = i \<and> mustFetch key s)"
  shows "\<forall>h. cache (step e s) i = Some h \<longrightarrow> P h"
proof (cases e)
  case (Call key)
  with assms(2) have "cache (step e s) i = cache s i"
    by (auto simp: handleRender_cache)
  with assms(1) show ?thesis by simp
next
  case (Advance d)
  with assms(1) show ?thesis by (simp add: advance_cache)
next
  case (Elapse d)
  with assms(1) show ?thesis by (simp add: elapse_def)
next
  case Fire
  with assms(1) show ?thesis by (auto dest: fire_stored)
next
  case (Settle h' oc)
  with assms(1) show ?thesis by (simp add: settle_def)
next
  case Reset
  then show ?thesis by (simp add: initializeNunjucksRenderPromiseCache_def)
qed

lemma unstored_stays:
  "\<forall>h. cache s i = Some h \<longrightarrow> P h \<Longrightarrow>
   \<forall>c \<in> set (calls evs s). \<not> storedUnder i c \<Longrightarrow>
   \<forall>h. cache (exec evs s) i = Some h \<longrightarrow> P h"
proof (induction evs arbitrary: s)
  case Nil
  then show ?case by simp
next
  case (Cons e es)
  have first: "\<forall>key. e = Call key \<longrightarrow> \<not> (toPropertyKey key = i \<and> mustFetch key s)"
    using Cons.prems(2) by (auto simp: storedUnder_def)
  have rest: "\<forall>c \<in> set (calls es (step e s)). \<not> storedUnder i c"
    using Cons.prems(2) by (cases e) simp_all
  have "\<forall>h. cache (step e s) i = Some h \<longrightarrow> P h"
    using Cons.prems(1) first by (rule step_unstored)
  then have "\<forall>h. cache (exec es (step e s)) i = Some h \<longrightarrow> P h"
    using rest by (rule Cons.IH)
  then show ?case by simp
qed

lemma absent_unless_stored:
  assumes "cache s i = None" and "\<forall>c \<in> set (calls evs s). \<not> storedUnder i c"
  shows "cache (exec evs s) i = None"
proof -
  from assms(1) have "\<forall>h. cache s i = Some h \<longrightarrow> False" by simp
  then have "\<forall>h. cache (exec evs s) i = Some h \<longrightarrow> False"
    using assms(2) by (rule unstored_stays)
  then show ?thesis by (cases "cache (exec evs s) i") simp_all
qed

text \<open>
  Claim C8, as the code has it. The reset leaves the table without any key and leaves the
  pending timers scheduled. Timers that come due right after the reset find an empty table
  and leave it empty. More generally, for as long after the reset as no call has stored a
  promise under a timer's key, that key is absent and the timer's deletion leaves the table
  as it is.
\<close>

theorem reset_then_timer:
  "cache (initializeNunjucksRenderPromiseCache s) = Map.empty \<and>
   timers (initializeNunjucksRenderPromiseCache s) = timers s \<and>
   cache (advance d (initializeNunjucksRenderPromiseCache s)) = Map.empty \<and>
   ((\<forall>c \<in> set (calls evs (initializeNunjucksRenderPromiseCache s)).
        \<not> storedUnder (toPropertyKey key) c) \<longrightarrow>
      cache (exec evs (initializeNunjucksRenderPromiseCache s)) (toPropertyKey key) = None \<and>
      evict key (cache (exec evs (initializeNunjucksRenderPromiseCache s))) =
        cache (exec evs (initializeNunjucksRenderPromiseCache s)))"
proof (intro conjI impI)
  let ?r = "initializeNunjucksRenderPromiseCache s"
  show e: "cache ?r = Map.empty"
    by (simp add: initializeNunjucksRenderPromiseCache_def)
  show "timers ?r = timers s"
    by (simp add: initializeNunjucksRenderPromiseCache_def)
  show "cache (advance d ?r) = Map.empty"
    by (rule ext) (simp add: advance_cache e)
  assume quiet: "\<forall>c \<in> set (calls evs ?r). \<not> storedUnder (toPropertyKey key) c"
  from e have "cache ?r (toPropertyKey key) = None" by simp
  then show absent: "cache (exec evs ?r) (toPropertyKey key) = None"
    using quiet by (rule absent_unless_stored)
  show "evict key (cache (exec evs ?r)) = cache (exec evs ?r)"
    by (rule ext) (simp add: evict_def absent)
qed

theorem reset_then_timer_witness:
  "timers (initializeNunjucksRenderPromiseCache
     (step (Call (Some ''req-1'')) (init :: (unit, unit) state))) = [(5000, Some ''req-1'')] \<and>
   map (storedUnder (toPropertyKey (Some ''req-1'')))
     (calls [Call (Some ''req-2''), Advance 3000]
        (initializeNunjucksRenderPromiseCache
           (step (Call (Some ''req-1'')) (init :: (unit, unit) state)))) = [False] \<and>
   cache (exec [Call (Some ''req-2''), Advance 3000]
     (initializeNunjucksRenderPromiseCache
        (step (Call (Some ''req-1'')) (init :: (unit, unit) state)))) ''req-2'' = Some 1 \<and>
   evict (Some ''req-1'')
     (cache (exec [Call (Some ''req-2''), Advance 3000]
        (initializeNunjucksRenderPromiseCache
           (step (Call (Some ''req-1'')) (init :: (unit, unit) state))))) =
   cache (exec [Call (Some ''req-2''), Advance 3000]
     (initializeNunjucksRenderPromiseCache
        (step (Call (Some ''req-1'')) (init :: (unit, unit) state))))"
proof -
  let ?s = "step (Call (Some ''req-1'')) (init :: (unit, unit) state)"
  let ?r = "initializeNunjucksRenderPromiseCache ?s"
  let ?evs = "[Call (Some ''req-2''), Advance 3000] :: (unit, unit) event list"
  have a: "timers ?s = [(5000, Some ''req-1'')]"
    by (simp add: handleRender_def init_def Let_def evictionDelay_def)
  have b: "\<forall>c \<in> set (calls ?evs ?r). \<not> storedUnder (toPropertyKey (Some ''req-1'')) c"
    by (simp add: storedUnder_def)
  have c: "cache (exec ?evs ?r) ''req-2'' = Some 1"
    by (simp add: handleRender_def mustFetch_def getProp_def objectPrototypeKeys_def init_def
        Let_def advance_def isDue_def evictionDelay_def initializeNunjucksRenderPromiseCache_def
        evict_def)
  from reset_then_timer [of ?s _ ?evs "Some ''req-1''"] b
  have d: "timers ?r = timers ?s"
    and e: "evict (Some ''req-1'') (cache (exec ?evs ?r)) = cache (exec ?evs ?r)"
    by blast+
  from d a have f: "timers ?r = [(5000, Some ''req-1'')]" by simp
  have g: "map (storedUnder (toPropertyKey (Some ''req-1''))) (calls ?evs ?r) = [False]"
    by (simp add: storedUnder_def)
  from f g c e show ?thesis by blast
qed

text \<open>
  A call stores a promise under the key again after the reset; the timer of the call made
  before the reset then comes due, finds the key present and deletes it.
\<close>

theorem reset_then_timer_counterexample:
  "timers (exec [Call (Some ''req-1''), Advance 1000, Reset, Call (Some ''req-1'')]
     (init :: (unit, unit) state)) = [(5000, Some ''req-1''), (6000, Some ''req-1'')] \<and>
   cache (exec [Call (Some ''req-1''), Advance 1000, Reset, Call (Some ''req-1'')]
     (init :: (unit, unit) state)) ''req-1'' = Some 1 \<and>
   timers (exec [Call (Some ''req-1''), Advance 1000, Reset, Call (Some ''req-1''), Advance 4000]
     (init :: (unit, unit) state)) = [(6000, Some ''req-1'')] \<and>
   cache (exec [Call (Some ''req-1''), Advance 1000, Reset, Call (Some ''req-1''), Advance 4000]
     (init :: (unit, unit) state)) ''req-1'' = None"
  by (simp add: handleRender_def mustFetch_def getProp_def objectPrototypeKeys_def init_def
      Let_def advance_def isDue_def evictionDelay_def initializeNunjucksRenderPromiseCache_def
      evict_def)

section \<open>Residence in the table\<close>


















end
